theory Spec2Isabelle
  imports Main
begin

section \<open>Python text primitives used by \<open>srp_tasks.py\<close>\<close>

text \<open>
  A Python \<open>str\<close> is a sequence of code points. Here a string is a \<open>char list\<close> and
  every \<open>char\<close> stands for the code point of the same number, so the model covers the
  texts whose code points are below 256. On that range \<open>str.strip\<close>, \<open>str.lower\<close>,
  \<open>str.split\<close>, \<open>str.replace\<close>, \<open>str.rstrip\<close> and \<open>int\<close> are written out as CPython
  computes them. Integers are unbounded (\<open>int\<close>); the interpreter's optional limit on the
  number of digits of a decimal conversion is not part of the model. Console output
  (\<open>print\<close>) is not modelled, and reading and writing the file never fail.
\<close>

abbreviation LF :: char where "LF \<equiv> CHR 0x0A"
abbreviation CR :: char where "CR \<equiv> CHR 0x0D"
abbreviation comma :: char where "comma \<equiv> CHR '',''"

text \<open>\<open>Py_UNICODE_ISSPACE\<close> below 256: what \<open>str.strip()\<close> removes.\<close>

definition isspace :: "char \<Rightarrow> bool" where
  "isspace c =
     (let n = (of_char c :: nat)
      in (9 \<le> n \<and> n \<le> 13) \<or> (28 \<le> n \<and> n \<le> 32) \<or> n = 133 \<or> n = 160)"

text \<open>\<open>s.strip()\<close>, \<open>s.rstrip(chars)\<close>, \<open>s.lower()\<close>.\<close>

definition strip :: "string \<Rightarrow> string" where
  "strip s = rev (dropWhile isspace (rev (dropWhile isspace s)))"

definition rstrip :: "string \<Rightarrow> string \<Rightarrow> string" where
  "rstrip chars s = rev (dropWhile (\<lambda>c. c \<in> set chars) (rev s))"

definition lower_char :: "char \<Rightarrow> char" where
  "lower_char c =
     (let n = (of_char c :: nat)
      in if (65 \<le> n \<and> n \<le> 90) \<or> (192 \<le> n \<and> n \<le> 222 \<and> n \<noteq> 215)
         then char_of (n + 32) else c)"

definition lower :: "string \<Rightarrow> string" where
  "lower s = map lower_char s"

text \<open>\<open>s.split(sep)\<close> for a separator of one character: never the empty list.\<close>

fun split :: "char \<Rightarrow> string \<Rightarrow> string list" where
  "split sep [] = [[]]"
| "split sep (c # cs) =
     (if c = sep then [] # split sep cs
      else (case split sep cs of [] \<Rightarrow> [[c]] | p # ps \<Rightarrow> (c # p) # ps))"

text \<open>
  \<open>s.replace(old, new)\<close>: the occurrences of \<open>old\<close> are taken from left to right and do
  not overlap; an empty \<open>old\<close> matches before every character and at the end.
\<close>

function replace :: "string \<Rightarrow> string \<Rightarrow> string \<Rightarrow> string" where
  "replace old new [] = (if old = [] then new else [])"
| "replace old new (c # cs) =
     (if old = [] then new @ c # replace old new cs
      else if take (length old) (c # cs) = old
           then new @ replace old new (drop (length old) (c # cs))
           else c # replace old new cs)"
  by pat_completeness auto
termination
  by (relation "measure (\<lambda>(old, new, s). length s)") auto

text \<open>
  \<open>int(s)\<close> in base 10. Surrounding white space is skipped, one sign is allowed, and
  the digits may be grouped by single underscores; anything else is \<open>ValueError\<close>
  (\<open>None\<close>). The white space of \<open>int\<close> is that of \<open>str.strip\<close> without the four
  separators \<open>0x1C\<close> to \<open>0x1F\<close>.
\<close>

definition int_space :: "char \<Rightarrow> bool" where
  "int_space c =
     (let n = (of_char c :: nat) in (9 \<le> n \<and> n \<le> 13) \<or> n = 32 \<or> n = 133 \<or> n = 160)"

definition is_digit :: "char \<Rightarrow> bool" where
  "is_digit c = (let n = (of_char c :: nat) in 48 \<le> n \<and> n \<le> 57)"

definition digit_val :: "char \<Rightarrow> nat" where
  "digit_val c = of_char c - 48"

definition digits_value :: "string \<Rightarrow> nat" where
  "digits_value ds = foldl (\<lambda>a c. 10 * a + digit_val c) 0 ds"

fun double_underscore :: "string \<Rightarrow> bool" where
  "double_underscore (a # b # cs) =
     ((a = CHR ''_'' \<and> b = CHR ''_'') \<or> double_underscore (b # cs))"
| "double_underscore _ = False"

definition py_int :: "string \<Rightarrow> int option" where
  "py_int s =
     (let s1 = dropWhile int_space s;
          neg = (s1 \<noteq> [] \<and> hd s1 = CHR ''-'');
          s2 = (if s1 \<noteq> [] \<and> (hd s1 = CHR ''+'' \<or> hd s1 = CHR ''-'') then tl s1 else s1);
          body = takeWhile (\<lambda>c. is_digit c \<or> c = CHR ''_'') s2;
          rest = dropWhile (\<lambda>c. is_digit c \<or> c = CHR ''_'') s2
      in if body = [] \<or> hd body = CHR ''_'' \<or> last body = CHR ''_''
            \<or> double_underscore body \<or> dropWhile int_space rest \<noteq> []
         then None
         else Some ((if neg then - 1 else 1) * int (digits_value (filter is_digit body))))"

text \<open>\<open>str(n)\<close> for an integer, \<open>str(b)\<close> for a boolean.\<close>

fun digits :: "nat \<Rightarrow> string" where
  "digits n = (if n < 10 then [char_of (48 + n)] else digits (n div 10) @ [char_of (48 + n mod 10)])"

declare digits.simps [simp del]

definition str_int :: "int \<Rightarrow> string" where
  "str_int n = (if n < 0 then CHR ''-'' # digits (nat (- n)) else digits (nat n))"

definition str_bool :: "bool \<Rightarrow> string" where
  "str_bool b = (if b then ''True'' else ''False'')"

section \<open>Priority and Task\<close>

datatype Priority = LOW | MEDIUM | HIGH

text \<open>\<open>Priority.value\<close>.\<close>

fun priority_value :: "Priority \<Rightarrow> string" where
  "priority_value LOW = ''low''"
| "priority_value MEDIUM = ''medium''"
| "priority_value HIGH = ''high''"

text \<open>\<open>Priority.from_str\<close>: \<open>not value\<close> holds for \<open>None\<close> and for the empty string.\<close>

definition from_str :: "string option \<Rightarrow> Priority" where
  "from_str value_arg =
     (case value_arg of
        None \<Rightarrow> MEDIUM
      | Some s \<Rightarrow>
          if s = [] then MEDIUM
          else (let v = lower (strip s)
                in if v = ''l'' \<or> v = ''low'' then LOW
                   else if v = ''m'' \<or> v = ''med'' \<or> v = ''medium'' then MEDIUM
                   else if v = ''h'' \<or> v = ''hi'' \<or> v = ''high'' then HIGH
                   else MEDIUM))"

record Task =
  task_id :: int
  description :: string
  due_date :: "string option"
  completed :: bool
  priority :: Priority

text \<open>\<open>Task.mark_completed\<close>.\<close>

definition mark_completed :: "Task \<Rightarrow> Task" where
  "mark_completed t = t\<lparr>completed := True\<rparr>"

section \<open>FileTaskStorage\<close>

text \<open>The six characters that stand for a comma inside a stored description.\<close>

definition escape_token :: string where
  "escape_token = CHR 0x5C # ''u002C''"

text \<open>The line \<open>save_tasks\<close> writes for one task (the formatted string, with its line end).\<close>

definition encode_line :: "Task \<Rightarrow> string" where
  "encode_line t =
     (let desc = replace [comma] escape_token (description t)
      in str_int (task_id t) @ [comma] @ desc @ [comma]
         @ (case due_date t of None \<Rightarrow> ''None'' | Some d \<Rightarrow> d) @ [comma]
         @ str_bool (completed t) @ [comma] @ priority_value (priority t) @ [LF])"

text \<open>
  The body of the loop of \<open>load_tasks\<close> for one line: \<open>None\<close> when the line is skipped
  (by \<open>continue\<close>, or by the \<open>ValueError\<close> of \<open>int\<close>).
\<close>

definition decode_line :: "string \<Rightarrow> Task option" where
  "decode_line line =
     (let parts = split comma (rstrip [LF] line)
      in if length parts \<noteq> 4 \<and> length parts \<noteq> 5 then None
         else (case py_int (parts ! 0) of
                 None \<Rightarrow> None
               | Some i \<Rightarrow>
                   Some \<lparr> task_id = i,
                          description = replace escape_token [comma] (parts ! 1),
                          due_date = (if parts ! 2 = [] \<or> parts ! 2 = ''None'' then None
                                      else Some (parts ! 2)),
                          completed = (lower (strip (parts ! 3)) = ''true''),
                          priority = (if length parts = 5 then from_str (Some (parts ! 4))
                                      else MEDIUM) \<rparr>))"

text \<open>
  Reading a text file: \<open>open(..., "r")\<close> turns every \<open>CR LF\<close> and every lone \<open>CR\<close> into
  \<open>LF\<close>, and iterating over the file gives its lines, each with its \<open>LF\<close> (the last
  one without, when the text does not end in \<open>LF\<close>). Writing stores the text as it is:
  the line separator of the platform is taken to be \<open>LF\<close>.
\<close>

fun translate_newlines :: "string \<Rightarrow> string" where
  "translate_newlines [] = []"
| "translate_newlines [c] = (if c = CR then [LF] else [c])"
| "translate_newlines (c # d # cs) =
     (if c = CR then (if d = LF then LF # translate_newlines cs
                      else LF # translate_newlines (d # cs))
      else c # translate_newlines (d # cs))"

fun readlines :: "string \<Rightarrow> string list" where
  "readlines [] = []"
| "readlines (c # cs) =
     (if c = LF then [LF] # readlines cs
      else (case readlines cs of [] \<Rightarrow> [[c]] | l # ls \<Rightarrow> (c # l) # ls))"

text \<open>
  The storage is its file: \<open>None\<close> while the file does not exist, else its text.
  \<open>save_calls\<close> counts the calls of \<open>save_tasks\<close>; the program has no such field, it is
  there to state that an operation saved or did not.
\<close>

record FileTaskStorage =
  content :: "string option"
  save_calls :: nat

definition load_tasks :: "FileTaskStorage \<Rightarrow> Task list" where
  "load_tasks st =
     (case content st of
        None \<Rightarrow> []
      | Some text \<Rightarrow> List.map_filter decode_line (readlines (translate_newlines text)))"

definition save_tasks :: "Task list \<Rightarrow> FileTaskStorage \<Rightarrow> FileTaskStorage" where
  "save_tasks ts st =
     st\<lparr>content := Some (concat (map encode_line ts)), save_calls := Suc (save_calls st)\<rparr>"

section \<open>TaskManager\<close>

text \<open>
  The manager owns the list of tasks, the next id and its storage. Every method takes
  the manager and returns it updated, beside the value the method returns.
\<close>

record TaskManager =
  storage :: FileTaskStorage
  tasks :: "Task list"
  next_id :: int

text \<open>\<open>max(iterable, default=d)\<close>.\<close>

definition max_default :: "int \<Rightarrow> int list \<Rightarrow> int" where
  "max_default d xs = (case xs of [] \<Rightarrow> d | x # r \<Rightarrow> foldl max x r)"

text \<open>\<open>TaskManager.__init__\<close>.\<close>

definition init_manager :: "FileTaskStorage \<Rightarrow> TaskManager" where
  "init_manager st =
     (let loaded = load_tasks st
      in \<lparr> storage = st, tasks = loaded,
           next_id = max_default 0 (map task_id loaded) + 1 \<rparr>)"

text \<open>
  The \<open>priority\<close> argument of \<open>add_task\<close>: absent, a \<open>Priority\<close>, or a string that
  \<open>Priority.from_str\<close> resolves.
\<close>

datatype priority_arg = NoPriority | AsPriority Priority | AsString string

definition add_task ::
  "string \<Rightarrow> string option \<Rightarrow> priority_arg \<Rightarrow> TaskManager \<Rightarrow> Task \<times> TaskManager" where
  "add_task descr due prio m =
     (let pr = (case prio of
                  AsPriority p \<Rightarrow> p
                | AsString s \<Rightarrow> from_str (Some s)
                | NoPriority \<Rightarrow> from_str None);
          task = \<lparr> task_id = next_id m, description = descr, due_date = due,
                   completed = False, priority = pr \<rparr>;
          ts = tasks m @ [task]
      in (task, \<lparr> storage = save_tasks ts (storage m), tasks = ts,
                  next_id = next_id m + 1 \<rparr>))"

definition list_tasks :: "TaskManager \<Rightarrow> Task list" where
  "list_tasks m = tasks m"

text \<open>\<open>get_task_by_id\<close>: the first task of the list with that id.\<close>

definition get_task_by_id :: "TaskManager \<Rightarrow> int \<Rightarrow> Task option" where
  "get_task_by_id m i = find (\<lambda>t. task_id t = i) (tasks m)"

text \<open>
  \<open>mark_task_completed\<close> changes the object that \<open>get_task_by_id\<close> returned, which is
  the first element of the list with that id: \<open>mark_found\<close> is that update of the list.
\<close>

fun mark_found :: "int \<Rightarrow> Task list \<Rightarrow> Task list" where
  "mark_found i [] = []"
| "mark_found i (t # ts) =
     (if task_id t = i then mark_completed t # ts else t # mark_found i ts)"

definition mark_task_completed :: "int \<Rightarrow> TaskManager \<Rightarrow> bool \<times> TaskManager" where
  "mark_task_completed i m =
     (case get_task_by_id m i of
        None \<Rightarrow> (False, m)
      | Some t \<Rightarrow>
          (let ts = mark_found i (tasks m)
           in (True, m\<lparr>tasks := ts, storage := save_tasks ts (storage m)\<rparr>)))"

definition remove_task :: "int \<Rightarrow> TaskManager \<Rightarrow> bool \<times> TaskManager" where
  "remove_task i m =
     (let before = length (tasks m);
          ts = filter (\<lambda>t. task_id t \<noteq> i) (tasks m)
      in if length ts = before then (False, m\<lparr>tasks := ts\<rparr>)
         else (True, m\<lparr>tasks := ts, storage := save_tasks ts (storage m)\<rparr>))"

text \<open>
  A session is a sequence of calls on one manager. \<open>run\<close> performs them in order and
  \<open>assigned\<close> lists the ids that the calls of \<open>add_task\<close> gave out, in order.
\<close>

datatype call = Add string "string option" priority_arg | Complete int | Remove int

fun step :: "call \<Rightarrow> TaskManager \<Rightarrow> TaskManager" where
  "step (Add descr due prio) m = snd (add_task descr due prio m)"
| "step (Complete i) m = snd (mark_task_completed i m)"
| "step (Remove i) m = snd (remove_task i m)"

fun run :: "call list \<Rightarrow> TaskManager \<Rightarrow> TaskManager" where
  "run [] m = m"
| "run (c # cs) m = run cs (step c m)"

fun assigned :: "call list \<Rightarrow> TaskManager \<Rightarrow> int list" where
  "assigned [] m = []"
| "assigned (Add descr due prio # cs) m =
     task_id (fst (add_task descr due prio m)) # assigned cs (step (Add descr due prio) m)"
| "assigned (c # cs) m = assigned cs (step c m)"

section \<open>Conditions on the text of a task\<close>

text \<open>\<open>occurs tok s\<close>: the text \<open>tok\<close> stands somewhere in \<open>s\<close>.\<close>

fun occurs :: "string \<Rightarrow> string \<Rightarrow> bool" where
  "occurs tok [] = (tok = [])"
| "occurs tok (c # cs) = (take (length tok) (c # cs) = tok \<or> occurs tok cs)"

text \<open>
  A due date that the stored format can carry: absent, or a text that is not empty, is
  not the word \<open>None\<close> and has no comma.
\<close>

definition due_ok :: "string option \<Rightarrow> bool" where
  "due_ok d = (case d of None \<Rightarrow> True
               | Some s \<Rightarrow> s \<noteq> [] \<and> s \<noteq> ''None'' \<and> comma \<notin> set s)"

text \<open>The description is free of the escape token and the due date can be carried.\<close>

definition codec_safe :: "Task \<Rightarrow> bool" where
  "codec_safe t = (\<not> occurs escape_token (description t) \<and> due_ok (due_date t))"

text \<open>A text that stays on one line of the file.\<close>

definition one_line :: "string \<Rightarrow> bool" where
  "one_line s = (LF \<notin> set s \<and> CR \<notin> set s)"

definition file_safe :: "Task \<Rightarrow> bool" where
  "file_safe t =
     (codec_safe t \<and> one_line (description t)
      \<and> (case due_date t of None \<Rightarrow> True | Some s \<Rightarrow> one_line s))"

section \<open>The documented behaviour, in the words of the specification\<close>

text \<open>
  The priority mapping as the specification words it: the text is trimmed and compared
  without regard to case; \<open>l\<close>, \<open>low\<close> give low, \<open>m\<close>, \<open>med\<close>, \<open>medium\<close> give medium,
  \<open>h\<close>, \<open>hi\<close>, \<open>high\<close> give high, and every other text or an absent one gives medium.
\<close>

definition priority_mapping_spec :: "string option \<Rightarrow> Priority" where
  "priority_mapping_spec v =
     (case v of
        None \<Rightarrow> MEDIUM
      | Some s \<Rightarrow>
          (let w = lower (strip s)
           in if w \<in> {''l'', ''low''} then LOW
              else if w \<in> {''m'', ''med'', ''medium''} then MEDIUM
              else if w \<in> {''h'', ''hi'', ''high''} then HIGH
              else MEDIUM))"

text \<open>
  The file agrees with the list: its text is what \<open>save_tasks\<close> writes for the list that
  the manager holds.
\<close>

definition file_matches_list :: "TaskManager \<Rightarrow> bool" where
  "file_matches_list m = (content (storage m) = Some (concat (map encode_line (tasks m))))"

text \<open>Every id of the list is below the next id.\<close>

definition ids_below_next :: "TaskManager \<Rightarrow> bool" where
  "ids_below_next m = (\<forall>t\<in>set (tasks m). task_id t < next_id m)"

section \<open>Example values\<close>

text \<open>Two tasks that differ only in the description: a comma, and the escape token.\<close>

definition comma_task :: Task where
  "comma_task = \<lparr> task_id = 1, description = [comma], due_date = None,
                   completed = False, priority = MEDIUM \<rparr>"

definition token_task :: Task where
  "token_task = \<lparr> task_id = 1, description = escape_token, due_date = None,
                   completed = False, priority = MEDIUM \<rparr>"

text \<open>A manager whose list, as loaded from a file, holds the id 1 twice.\<close>

definition dup_manager :: TaskManager where
  "dup_manager =
     init_manager \<lparr> content = Some (''1,first,None,False,low'' @ [LF]
                                      @ ''2,second,None,False,low'' @ [LF]
                                      @ ''1,third,None,True,high'' @ [LF]),
                    save_calls = 0 \<rparr>"

text \<open>
  A task with commas in its description; a task whose description holds a comma and
  the escape token; a task whose description spans two lines; an absent file.
\<close>

definition milk_task :: Task where
  "milk_task = \<lparr> task_id = 7, description = ''Buy milk, eggs, and tea'',
                  due_date = Some ''2024-08-10'', completed = True, priority = HIGH \<rparr>"

definition mixed_task :: Task where
  "mixed_task = \<lparr> task_id = 1, description = comma # escape_token, due_date = None,
                   completed = False, priority = MEDIUM \<rparr>"

definition two_line_task :: Task where
  "two_line_task = \<lparr> task_id = 1, description = ''a'' @ [LF] @ ''b'', due_date = None,
                      completed = False, priority = MEDIUM \<rparr>"

definition blank_storage :: FileTaskStorage where
  "blank_storage = \<lparr> content = None, save_calls = 0 \<rparr>"

text \<open>A file that stores the ids 3, 7 and 2, in this order.\<close>

definition stored_372 :: FileTaskStorage where
  "stored_372 = \<lparr> content = Some (''3,a,None,False,low'' @ [LF] @ ''7,b,None,False,low'' @ [LF]
                                   @ ''2,c,None,True,high'' @ [LF]),
                  save_calls = 0 \<rparr>"

text \<open>A session: an addition, the removal of the task just added, another addition.\<close>

definition session_calls :: "call list" where
  "session_calls = [Add ''x'' None NoPriority, Remove 8, Add ''y'' None (AsString ''low'')]"

text \<open>
  Five stored lines: a good one, one of two fields, one whose id is no integer, a good
  one of four fields with spaces around the id, and one of six fields.
\<close>

definition stored_lines :: "string list" where
  "stored_lines = [''1,Buy milk,None,False,low'', ''oops,line'', ''x,a,None,False'',
                   '' 2 ,b,,TRUE'', ''3,c,d,e,f,g'']"

section \<open>Properties of the text primitives\<close>

lemma split_no_sep: "sep \<notin> set a \<Longrightarrow> split sep a = [a]"
  by (induction a) auto

lemma split_append: "sep \<notin> set a \<Longrightarrow> split sep (a @ sep # r) = a # split sep r"
  by (induction a) auto

lemma rstrip_line: "s \<noteq> [] \<Longrightarrow> last s \<noteq> LF \<Longrightarrow> rstrip [LF] (s @ [LF]) = s"
  by (cases s rule: rev_cases) (auto simp: rstrip_def)

lemma digits_all: "\<forall>c\<in>set (digits n). is_digit c"
proof (induction n rule: digits.induct)
  case (1 n)
  show ?case
  proof (cases "n < 10")
    case True
    then show ?thesis by (subst digits.simps) (simp add: is_digit_def Let_def)
  next
    case False
    have "n mod 10 < 10" by simp
    then have "is_digit (char_of (48 + n mod 10))" by (simp add: is_digit_def Let_def)
    with False 1 show ?thesis by (subst digits.simps) simp
  qed
qed

lemma digits_nonempty: "digits n \<noteq> []"
  by (subst digits.simps) simp

lemma digits_value_snoc: "digits_value (ds @ [c]) = 10 * digits_value ds + digit_val c"
  by (simp add: digits_value_def)

lemma digits_value_digits: "digits_value (digits n) = n"
proof (induction n rule: digits.induct)
  case (1 n)
  show ?case
  proof (cases "n < 10")
    case True
    then show ?thesis by (subst digits.simps) (simp add: digits_value_def digit_val_def)
  next
    case False
    have "n mod 10 < 10" by simp
    then have "digit_val (char_of (48 + n mod 10)) = n mod 10" by (simp add: digit_val_def)
    with False 1 show ?thesis by (subst digits.simps) (simp add: digits_value_snoc)
  qed
qed

lemma no_double_underscore: "CHR ''_'' \<notin> set s \<Longrightarrow> \<not> double_underscore s"
  by (induction s rule: double_underscore.induct) auto

lemma is_digit_not_special:
  "is_digit c \<Longrightarrow> c \<noteq> CHR ''_'' \<and> c \<noteq> CHR ''+'' \<and> c \<noteq> CHR ''-'' \<and> \<not> int_space c \<and> c \<noteq> comma \<and> c \<noteq> LF \<and> c \<noteq> CR"
  by (auto simp: is_digit_def int_space_def Let_def)

lemma py_int_digits: "py_int (digits n) = Some (int n)"
proof -
  let ?d = "digits n"
  have all: "\<forall>c\<in>set ?d. is_digit c" by (rule digits_all)
  have ne: "?d \<noteq> []" by (rule digits_nonempty)
  have hd: "is_digit (hd ?d)" using all ne by simp
  have lst: "is_digit (last ?d)" using all ne by simp
  have s1: "dropWhile int_space ?d = ?d" using hd ne is_digit_not_special by (cases ?d) auto
  have tw: "takeWhile (\<lambda>c. is_digit c \<or> c = CHR ''_'') ?d = ?d" using all by simp
  have dw: "dropWhile (\<lambda>c. is_digit c \<or> c = CHR ''_'') ?d = []" using all by simp
  have nu: "CHR ''_'' \<notin> set ?d" using all is_digit_not_special by blast
  have fl: "filter is_digit ?d = ?d" using all by simp
  show ?thesis
    unfolding py_int_def Let_def s1
    using hd lst ne is_digit_not_special[OF hd] is_digit_not_special[OF lst] no_double_underscore[OF nu]
    by (simp add: tw dw fl digits_value_digits)
qed

lemma py_int_neg_digits: "0 < n \<Longrightarrow> py_int (CHR ''-'' # digits n) = Some (- int n)"
proof -
  assume "0 < n"
  let ?d = "digits n"
  have all: "\<forall>c\<in>set ?d. is_digit c" by (rule digits_all)
  have ne: "?d \<noteq> []" by (rule digits_nonempty)
  have hd: "is_digit (hd ?d)" using all ne by simp
  have lst: "is_digit (last ?d)" using all ne by simp
  have s1: "dropWhile int_space (CHR ''-'' # ?d) = CHR ''-'' # ?d" by (simp add: int_space_def Let_def)
  have tw: "takeWhile (\<lambda>c. is_digit c \<or> c = CHR ''_'') ?d = ?d" using all by simp
  have dw: "dropWhile (\<lambda>c. is_digit c \<or> c = CHR ''_'') ?d = []" using all by simp
  have nu: "CHR ''_'' \<notin> set ?d" using all is_digit_not_special by blast
  have fl: "filter is_digit ?d = ?d" using all by simp
  show ?thesis
    unfolding py_int_def Let_def s1
    using hd lst ne is_digit_not_special[OF hd] is_digit_not_special[OF lst] no_double_underscore[OF nu]
    by (simp add: tw dw fl digits_value_digits)
qed

lemma py_int_str_int: "py_int (str_int n) = Some n"
  by (cases "n < 0") (simp_all add: str_int_def py_int_digits py_int_neg_digits)

lemma str_int_no_comma: "comma \<notin> set (str_int n)"
  using digits_all[of "nat n"] digits_all[of "nat (- n)"] is_digit_not_special
  by (auto simp: str_int_def)

lemma escape_no_comma: "comma \<notin> set (replace [comma] escape_token s)"
  by (induction s) (auto simp: escape_token_def)

lemma escape_keeps_prefix:
  "\<forall>c\<in>set p. c \<noteq> comma \<and> c \<noteq> CHR 0x5C \<Longrightarrow> take (length p) (replace [comma] escape_token s) = p
   \<Longrightarrow> take (length p) s = p"
proof (induction p arbitrary: s)
  case Nil
  then show ?case by simp
next
  case (Cons a p)
  show ?case
  proof (cases s)
    case Nil
    with Cons.prems show ?thesis by simp
  next
    case (Cons c cs)
    show ?thesis
    proof (cases "c = comma")
      case True
      with Cons Cons.prems show ?thesis by (simp add: escape_token_def)
    next
      case False
      with Cons Cons.prems Cons.IH[of cs] show ?thesis by simp
    qed
  qed
qed

lemma escape_Cons:
  "replace [comma] new (c # cs) =
     (if c = comma then new @ replace [comma] new cs else c # replace [comma] new cs)"
  by simp

lemma token_head:
  "(take (length escape_token) (c # r) = escape_token)
     = (c = CHR 0x5C \<and> take (length ''u002C'') r = ''u002C'')"
  by (simp add: escape_token_def)

lemma token_nonempty: "escape_token \<noteq> []"
  by (simp add: escape_token_def)

lemma unescape_token: "replace escape_token new (escape_token @ r) = new @ replace escape_token new r"
  by (simp add: escape_token_def)

lemma unescape_skip:
  "take (length escape_token) (c # r) \<noteq> escape_token
   \<Longrightarrow> replace escape_token new (c # r) = c # replace escape_token new r"
  using token_nonempty by simp

lemma unescape_escape:
  "\<not> occurs escape_token s \<Longrightarrow> replace escape_token [comma] (replace [comma] escape_token s) = s"
proof (induction s)
  case Nil
  then show ?case by (simp add: escape_token_def)
next
  case (Cons c cs)
  from Cons.prems have nohead: "take (length escape_token) (c # cs) \<noteq> escape_token"
    and notail: "\<not> occurs escape_token cs"
    by simp_all
  have IH: "replace escape_token [comma] (replace [comma] escape_token cs) = cs"
    using Cons.IH notail by simp
  show ?case
  proof (cases "c = comma")
    case True
    have "replace escape_token [comma] (replace [comma] escape_token (c # cs))
            = replace escape_token [comma] (escape_token @ replace [comma] escape_token cs)"
      using True by simp
    also have "\<dots> = [comma] @ replace escape_token [comma] (replace [comma] escape_token cs)"
      by (rule unescape_token)
    also have "\<dots> = c # cs" using IH True by simp
    finally show ?thesis .
  next
    case False
    have "take (length escape_token) (c # replace [comma] escape_token cs) \<noteq> escape_token"
    proof
      assume "take (length escape_token) (c # replace [comma] escape_token cs) = escape_token"
      then have c: "c = CHR 0x5C"
        and r: "take (length ''u002C'') (replace [comma] escape_token cs) = ''u002C''"
        unfolding token_head by blast+
      have "\<forall>x\<in>set ''u002C''. x \<noteq> comma \<and> x \<noteq> CHR 0x5C" by simp
      then have "take (length ''u002C'') cs = ''u002C''"
        using r by (rule escape_keeps_prefix)
      with c nohead show False unfolding token_head by blast
    qed
    then have "replace escape_token [comma] (c # replace [comma] escape_token cs)
                 = c # replace escape_token [comma] (replace [comma] escape_token cs)"
      by (rule unescape_skip)
    moreover have "replace [comma] escape_token (c # cs) = c # replace [comma] escape_token cs"
      using False by simp
    ultimately show ?thesis using IH by (simp only:)
  qed
qed

lemma from_str_value: "from_str (Some (priority_value p)) = p"
  by (cases p; simp; code_simp)

lemma completed_field: "(lower (strip (str_bool b)) = ''true'') = b"
  by (cases b; simp add: str_bool_def; code_simp)

lemma line_fields:
  assumes "comma \<notin> set a" "comma \<notin> set b" "comma \<notin> set c" "comma \<notin> set d" "comma \<notin> set e"
  shows "split comma (a @ [comma] @ b @ [comma] @ c @ [comma] @ d @ [comma] @ e) = [a, b, c, d, e]"
  using assms by (simp add: split_append split_no_sep)

lemma str_bool_no_comma: "comma \<notin> set (str_bool b)"
  by (simp add: str_bool_def)

lemma priority_value_no_comma: "comma \<notin> set (priority_value p)"
  by (cases p) simp_all

lemma priority_value_last: "priority_value p \<noteq> [] \<and> last (priority_value p) \<noteq> LF"
  by (cases p) simp_all

lemma encode_line_rstrip:
  "rstrip [LF] (encode_line t) =
     str_int (task_id t) @ [comma] @ replace [comma] escape_token (description t) @ [comma]
       @ (case due_date t of None \<Rightarrow> ''None'' | Some d \<Rightarrow> d) @ [comma]
       @ str_bool (completed t) @ [comma] @ priority_value (priority t)"
proof -
  let ?body = "str_int (task_id t) @ [comma] @ replace [comma] escape_token (description t) @ [comma]
       @ (case due_date t of None \<Rightarrow> ''None'' | Some d \<Rightarrow> d) @ [comma]
       @ str_bool (completed t) @ [comma] @ priority_value (priority t)"
  have e: "encode_line t = ?body @ [LF]" by (simp add: encode_line_def)
  have "?body \<noteq> []" using priority_value_last by simp
  moreover have "last ?body \<noteq> LF" using priority_value_last[of "priority t"] by simp
  ultimately show ?thesis unfolding e by (rule rstrip_line)
qed

lemma due_field_no_comma:
  "due_ok d \<Longrightarrow> comma \<notin> set (case d of None \<Rightarrow> ''None'' | Some s \<Rightarrow> s)"
  by (cases d) (simp_all add: due_ok_def)

lemma due_field_back:
  "due_ok d \<Longrightarrow> (let f = (case d of None \<Rightarrow> ''None'' | Some s \<Rightarrow> s)
                   in if f = [] \<or> f = ''None'' then None else Some f) = d"
  by (cases d) (simp_all add: due_ok_def)

lemma decode_encode:
  assumes "codec_safe t"
  shows "decode_line (encode_line t) = Some t"
proof -
  from assms have tok: "\<not> occurs escape_token (description t)" and due: "due_ok (due_date t)"
    by (simp_all add: codec_safe_def)
  let ?due = "case due_date t of None \<Rightarrow> ''None'' | Some d \<Rightarrow> d"
  have parts: "split comma (rstrip [LF] (encode_line t)) =
      [str_int (task_id t), replace [comma] escape_token (description t), ?due,
       str_bool (completed t), priority_value (priority t)]"
    unfolding encode_line_rstrip
    by (rule line_fields)
       (simp_all add: str_int_no_comma escape_no_comma due_field_no_comma[OF due]
          str_bool_no_comma priority_value_no_comma)
  have d: "(if ?due = [] \<or> ?due = ''None'' then None else Some ?due) = due_date t"
    using due_field_back[OF due] by (simp add: Let_def)
  show ?thesis
    unfolding decode_line_def parts Let_def using due
    by (cases "due_date t")
       (simp_all add: py_int_str_int unescape_escape[OF tok] completed_field from_str_value
          due_ok_def)
qed

section \<open>Saving and loading a list\<close>

lemma translate_no_CR: "CR \<notin> set s \<Longrightarrow> translate_newlines s = s"
  by (induction s rule: translate_newlines.induct) auto

lemma readlines_line: "LF \<notin> set l \<Longrightarrow> readlines (l @ LF # r) = (l @ [LF]) # readlines r"
  by (induction l) auto

lemma escape_set: "set (replace [comma] escape_token s) \<subseteq> set s \<union> set escape_token"
  by (induction s) auto

lemma str_int_chars: "LF \<notin> set (str_int n) \<and> CR \<notin> set (str_int n)"
  using digits_all[of "nat n"] digits_all[of "nat (- n)"] is_digit_not_special
  by (auto simp: str_int_def split: if_splits)

lemma str_bool_chars: "LF \<notin> set (str_bool b) \<and> CR \<notin> set (str_bool b)"
  by (simp add: str_bool_def)

lemma priority_value_chars: "LF \<notin> set (priority_value p) \<and> CR \<notin> set (priority_value p)"
  by (cases p) simp_all

lemma escape_chars:
  "one_line s \<Longrightarrow> LF \<notin> set (replace [comma] escape_token s)
                   \<and> CR \<notin> set (replace [comma] escape_token s)"
  using escape_set[of s] by (auto simp: one_line_def escape_token_def)

lemma due_chars:
  "(case d of None \<Rightarrow> True | Some s \<Rightarrow> one_line s)
   \<Longrightarrow> LF \<notin> set (case d of None \<Rightarrow> ''None'' | Some s \<Rightarrow> s)
       \<and> CR \<notin> set (case d of None \<Rightarrow> ''None'' | Some s \<Rightarrow> s)"
  by (cases d) (simp_all add: one_line_def)

lemma encode_line_shape:
  assumes "file_safe t"
  shows "\<exists>b. encode_line t = b @ [LF] \<and> LF \<notin> set b \<and> CR \<notin> set b"
proof -
  let ?b = "str_int (task_id t) @ [comma] @ replace [comma] escape_token (description t) @ [comma]
       @ (case due_date t of None \<Rightarrow> ''None'' | Some d \<Rightarrow> d) @ [comma]
       @ str_bool (completed t) @ [comma] @ priority_value (priority t)"
  from assms have d: "one_line (description t)"
    and u: "case due_date t of None \<Rightarrow> True | Some s \<Rightarrow> one_line s"
    by (simp_all add: file_safe_def)
  have "encode_line t = ?b @ [LF]" by (simp add: encode_line_def)
  moreover have "LF \<notin> set ?b \<and> CR \<notin> set ?b"
    using str_int_chars[of "task_id t"] escape_chars[OF d] due_chars[OF u]
      str_bool_chars[of "completed t"] priority_value_chars[of "priority t"]
    by simp
  ultimately show ?thesis by blast
qed

lemma readlines_saved:
  "\<forall>t\<in>set ts. file_safe t \<Longrightarrow> readlines (concat (map encode_line ts)) = map encode_line ts"
proof (induction ts)
  case Nil
  then show ?case by simp
next
  case (Cons t ts)
  then obtain b where b: "encode_line t = b @ [LF]" "LF \<notin> set b"
    using encode_line_shape[of t] by auto
  with Cons show ?case by (simp add: readlines_line)
qed

lemma saved_no_CR:
  "\<forall>t\<in>set ts. file_safe t \<Longrightarrow> CR \<notin> set (concat (map encode_line ts))"
proof (induction ts)
  case Nil
  then show ?case by simp
next
  case (Cons t ts)
  then obtain b where b: "encode_line t = b @ [LF]" "CR \<notin> set b"
    using encode_line_shape[of t] by auto
  with Cons show ?case by simp
qed

lemma map_filter_decode:
  "\<forall>t\<in>set ts. codec_safe t \<Longrightarrow> List.map_filter decode_line (map encode_line ts) = ts"
  by (induction ts) (simp_all add: decode_encode)

lemma load_save:
  assumes "\<forall>t\<in>set ts. file_safe t"
  shows "load_tasks (save_tasks ts st) = ts"
proof -
  have c: "\<forall>t\<in>set ts. codec_safe t" using assms by (simp add: file_safe_def)
  show ?thesis
    by (simp add: load_tasks_def save_tasks_def translate_no_CR[OF saved_no_CR[OF assms]]
        readlines_saved[OF assms] map_filter_decode[OF c])
qed

section \<open>The operations of the manager\<close>

lemma find_absent: "(find (\<lambda>t. task_id t = i) ts = None) = (i \<notin> set (map task_id ts))"
  by (induction ts) auto

lemma filter_absent: "i \<notin> set (map task_id ts) \<Longrightarrow> filter (\<lambda>t. task_id t \<noteq> i) ts = ts"
  by (induction ts) auto

lemma filter_present:
  "i \<in> set (map task_id ts) \<Longrightarrow> length (filter (\<lambda>t. task_id t \<noteq> i) ts) < length ts"
proof (induction ts)
  case Nil
  then show ?case by simp
next
  case (Cons t ts)
  then show ?case by (cases "task_id t = i") (auto simp: less_Suc_eq_le)
qed

lemma mark_found_update:
  "i \<in> set (map task_id ts) \<Longrightarrow>
     \<exists>k<length ts. (\<forall>j<k. task_id (ts ! j) \<noteq> i) \<and> task_id (ts ! k) = i
        \<and> mark_found i ts = ts[k := (ts ! k)\<lparr>completed := True\<rparr>]"
proof (induction ts)
  case Nil
  then show ?case by simp
next
  case (Cons t ts)
  show ?case
  proof (cases "task_id t = i")
    case True
    then have "(\<forall>j<0. task_id ((t # ts) ! j) \<noteq> i) \<and> task_id ((t # ts) ! 0) = i
        \<and> mark_found i (t # ts) = (t # ts)[0 := ((t # ts) ! 0)\<lparr>completed := True\<rparr>]"
      by (simp add: mark_completed_def)
    then show ?thesis by blast
  next
    case False
    with Cons obtain k where k: "k < length ts" "\<forall>j<k. task_id (ts ! j) \<noteq> i"
      "task_id (ts ! k) = i" "mark_found i ts = ts[k := (ts ! k)\<lparr>completed := True\<rparr>]"
      by auto
    have "\<forall>j<Suc k. task_id ((t # ts) ! j) \<noteq> i"
      using False k(2) by (auto simp: less_Suc_eq_0_disj)
    with k False have "Suc k < length (t # ts) \<and> (\<forall>j<Suc k. task_id ((t # ts) ! j) \<noteq> i)
        \<and> task_id ((t # ts) ! Suc k) = i
        \<and> mark_found i (t # ts) = (t # ts)[Suc k := ((t # ts) ! Suc k)\<lparr>completed := True\<rparr>]"
      by simp
    then show ?thesis by blast
  qed
qed

lemma mark_found_ids: "map task_id (mark_found i ts) = map task_id ts"
  by (induction ts) (auto simp: mark_completed_def)

lemma mark_absent:
  "i \<notin> set (map task_id (tasks m)) \<Longrightarrow> mark_task_completed i m = (False, m)"
proof -
  assume "i \<notin> set (map task_id (tasks m))"
  then have "find (\<lambda>t. task_id t = i) (tasks m) = None" by (simp add: find_absent)
  then show ?thesis by (simp add: mark_task_completed_def get_task_by_id_def)
qed

lemma mark_present:
  "i \<in> set (map task_id (tasks m)) \<Longrightarrow>
     mark_task_completed i m =
       (True, m\<lparr>tasks := mark_found i (tasks m),
                storage := save_tasks (mark_found i (tasks m)) (storage m)\<rparr>)"
proof -
  assume "i \<in> set (map task_id (tasks m))"
  then have "find (\<lambda>t. task_id t = i) (tasks m) \<noteq> None" by (simp add: find_absent)
  then show ?thesis by (auto simp: mark_task_completed_def get_task_by_id_def Let_def)
qed

lemma remove_absent:
  "i \<notin> set (map task_id (tasks m)) \<Longrightarrow> remove_task i m = (False, m)"
  by (simp add: remove_task_def Let_def filter_absent)

lemma remove_present:
  "i \<in> set (map task_id (tasks m)) \<Longrightarrow>
     remove_task i m =
       (True, m\<lparr>tasks := filter (\<lambda>t. task_id t \<noteq> i) (tasks m),
                storage := save_tasks (filter (\<lambda>t. task_id t \<noteq> i) (tasks m)) (storage m)\<rparr>)"
  using filter_present[of i "tasks m"] by (simp add: remove_task_def Let_def)

lemma dup_manager_eq:
  "dup_manager =
     \<lparr> storage = \<lparr> content = Some (''1,first,None,False,low'' @ [LF]
                                      @ ''2,second,None,False,low'' @ [LF]
                                      @ ''1,third,None,True,high'' @ [LF]),
                    save_calls = 0 \<rparr>,
       tasks =
         [\<lparr> task_id = 1, description = ''first'', due_date = None, completed = False, priority = LOW \<rparr>,
          \<lparr> task_id = 2, description = ''second'', due_date = None, completed = False, priority = LOW \<rparr>,
          \<lparr> task_id = 1, description = ''third'', due_date = None, completed = True, priority = HIGH \<rparr>],
       next_id = 3 \<rparr>"
  by code_simp

lemma saved_matches:
  "storage m' = save_tasks (tasks m') st \<Longrightarrow>
     file_matches_list m' \<and> save_calls (storage m') = Suc (save_calls st)
     \<and> ((\<forall>t\<in>set (tasks m'). file_safe t) \<longrightarrow> load_tasks (storage m') = tasks m')"
  by (simp add: file_matches_list_def load_save) (simp add: save_tasks_def)

section \<open>Identifiers\<close>

lemma foldl_max_Max: "foldl max (x::int) xs = Max (set (x # xs))"
proof -
  have "(\<lambda>a b. max b a) = (max :: int \<Rightarrow> int \<Rightarrow> int)"
    by (intro ext) (simp add: max.commute)
  then have "foldl max x xs = fold max xs x" by (simp add: foldl_conv_fold)
  also have "\<dots> = Max (set (x # xs))" by (rule Max.set_eq_fold [symmetric])
  finally show ?thesis .
qed

lemma mark_found_below:
  "\<forall>t\<in>set ts. task_id t < n \<Longrightarrow> \<forall>t\<in>set (mark_found i ts). task_id t < n"
  by (induction ts) (auto simp: mark_completed_def)

lemma max_default_Max:
  "max_default d xs = (if xs = [] then d else Max (set xs))"
  by (cases xs) (simp_all add: max_default_def foldl_max_Max del: foldl_Cons set_simps)

lemma init_below: "ids_below_next (init_manager st)"
proof -
  have "task_id t < max_default 0 (map task_id ts) + 1" if "t \<in> set ts" for t :: Task and ts
  proof -
    from that have "map task_id ts \<noteq> []" by auto
    moreover have "task_id t \<le> Max (set (map task_id ts))" using that by simp
    ultimately show ?thesis by (simp add: max_default_Max)
  qed
  then show ?thesis by (simp add: ids_below_next_def init_manager_def Let_def)
qed

lemma step_next_id: "next_id m \<le> next_id (step c m)"
  by (cases c) (auto simp: add_task_def Let_def mark_task_completed_def remove_task_def
      split: option.splits)

lemma step_below: "ids_below_next m \<Longrightarrow> ids_below_next (step c m)"
proof (cases c)
  case (Add d due p)
  assume "ids_below_next m"
  then show ?thesis using Add by (auto simp: ids_below_next_def add_task_def Let_def)
next
  case (Complete i)
  assume a: "ids_below_next m"
  have "\<forall>t\<in>set (mark_found i (tasks m)). task_id t < next_id m"
    using a by (intro mark_found_below) (simp add: ids_below_next_def)
  then show ?thesis using Complete a
    by (auto simp: ids_below_next_def mark_task_completed_def Let_def split: option.splits)
next
  case (Remove i)
  assume "ids_below_next m"
  then show ?thesis using Remove by (auto simp: ids_below_next_def remove_task_def Let_def)
qed

lemma step_distinct:
  "ids_below_next m \<Longrightarrow> distinct (map task_id (tasks m))
   \<Longrightarrow> distinct (map task_id (tasks (step c m)))"
proof (cases c)
  case (Add d due p)
  assume "ids_below_next m" "distinct (map task_id (tasks m))"
  then show ?thesis using Add by (auto simp: ids_below_next_def add_task_def Let_def)
next
  case (Complete i)
  assume "distinct (map task_id (tasks m))"
  then show ?thesis using Complete
    by (auto simp: mark_task_completed_def Let_def mark_found_ids split: option.splits)
next
  case (Remove i)
  assume "distinct (map task_id (tasks m))"
  then show ?thesis using Remove
    by (auto simp: remove_task_def Let_def distinct_map_filter)
qed

lemma run_distinct:
  "ids_below_next m \<Longrightarrow> distinct (map task_id (tasks m))
   \<Longrightarrow> distinct (map task_id (tasks (run cs m)))"
  by (induction cs arbitrary: m) (simp_all add: step_below step_distinct)

lemma assigned_ge: "a \<in> set (assigned cs m) \<Longrightarrow> next_id m \<le> a"
proof (induction cs arbitrary: m)
  case Nil
  then show ?case by simp
next
  case (Cons c cs)
  have s: "next_id m \<le> next_id (step c m)" by (rule step_next_id)
  show ?case
  proof (cases c)
    case (Add d due p)
    with Cons.prems have "a = next_id m \<or> a \<in> set (assigned cs (step c m))"
      by (auto simp: add_task_def Let_def)
    then show ?thesis using Cons.IH[of "step c m"] s by auto
  next
    case (Complete i)
    with Cons.prems have "a \<in> set (assigned cs (step c m))" by simp
    then show ?thesis using Cons.IH[of "step c m"] s by auto
  next
    case (Remove i)
    with Cons.prems have "a \<in> set (assigned cs (step c m))" by simp
    then show ?thesis using Cons.IH[of "step c m"] s by auto
  qed
qed

lemma assigned_increasing: "sorted_wrt (<) (assigned cs m)"
proof (induction cs arbitrary: m)
  case Nil
  then show ?case by simp
next
  case (Cons c cs)
  show ?case
  proof (cases c)
    case (Add d due p)
    have "next_id m < a" if "a \<in> set (assigned cs (step c m))" for a
      using assigned_ge[OF that] Add by (simp add: add_task_def Let_def)
    then show ?thesis using Add Cons.IH[of "step c m"] by (simp add: add_task_def Let_def)
  next
    case (Complete i)
    then show ?thesis using Cons.IH[of "step c m"] by simp
  next
    case (Remove i)
    then show ?thesis using Cons.IH[of "step c m"] by simp
  qed
qed

lemma assigned_fresh:
  "ids_below_next m \<Longrightarrow> a \<in> set (assigned cs m) \<Longrightarrow> t \<in> set (tasks m) \<Longrightarrow> task_id t < a"
  using assigned_ge[of a cs m] by (auto simp: ids_below_next_def)

section \<open>Loading lines\<close>

lemma rstrip_LF: "LF \<notin> set s \<Longrightarrow> rstrip [LF] (s @ [LF]) = s"
  by (cases s rule: rev_cases) (auto simp: rstrip_def)

lemma readlines_lines:
  "\<forall>l\<in>set ls. LF \<notin> set l \<Longrightarrow>
     readlines (concat (map (\<lambda>l. l @ [LF]) ls)) = map (\<lambda>l. l @ [LF]) ls"
  by (induction ls) (simp_all add: readlines_line)

lemma decode_line_accepts:
  "(decode_line line \<noteq> None)
     = ((length (split comma (rstrip [LF] line)) = 4 \<or> length (split comma (rstrip [LF] line)) = 5)
        \<and> py_int (split comma (rstrip [LF] line) ! 0) \<noteq> None)"
  by (auto simp: decode_line_def Let_def split: option.splits)

lemma load_lines:
  assumes "\<forall>l\<in>set ls. one_line l"
  shows "load_tasks \<lparr> content = Some (concat (map (\<lambda>l. l @ [LF]) ls)), save_calls = n \<rparr>
           = List.map_filter decode_line (map (\<lambda>l. l @ [LF]) ls)"
proof -
  have "CR \<notin> set (concat (map (\<lambda>l. l @ [LF]) ls))"
    using assms by (auto simp: one_line_def)
  then have "translate_newlines (concat (map (\<lambda>l. l @ [LF]) ls)) = concat (map (\<lambda>l. l @ [LF]) ls)"
    by (rule translate_no_CR)
  moreover have "\<forall>l\<in>set ls. LF \<notin> set l" using assms by (simp add: one_line_def)
  ultimately show ?thesis by (simp add: load_tasks_def readlines_lines)
qed

section \<open>The lines that a file delivers\<close>

lemma translate_drops_CR: "CR \<notin> set (translate_newlines s)"
  by (induction s rule: translate_newlines.induct) auto

lemma rstrip_Cons: "c \<notin> set chars \<Longrightarrow> rstrip chars (c # l) = c # rstrip chars l"
  by (simp add: rstrip_def dropWhile_append)

lemma rstrip_subset: "set (rstrip chars l) \<subseteq> set l"
  using set_dropWhileD [of _ "\<lambda>c. c \<in> set chars" "rev l"] by (auto simp: rstrip_def)

lemma readlines_no_inner_LF:
  "l \<in> set (readlines s) \<Longrightarrow> LF \<notin> set (rstrip [LF] l) \<and> set l \<subseteq> set s"
proof (induction s arbitrary: l)
  case Nil
  then show ?case by simp
next
  case (Cons c cs)
  show ?case
  proof (cases "c = LF")
    case True
    with Cons.prems have "l = [LF] \<or> l \<in> set (readlines cs)" by simp
    then show ?thesis
    proof
      assume "l = [LF]"
      then show ?thesis using True by (simp add: rstrip_def)
    next
      assume "l \<in> set (readlines cs)"
      then have "LF \<notin> set (rstrip [LF] l) \<and> set l \<subseteq> set cs" by (rule Cons.IH)
      then show ?thesis by auto
    qed
  next
    case False
    show ?thesis
    proof (cases "readlines cs")
      case Nil
      with False Cons.prems have "l = [c]" by simp
      then show ?thesis using False by (simp add: rstrip_def)
    next
      case (Cons l' ls)
      with False Cons.prems have "l = c # l' \<or> l \<in> set ls" by simp
      then show ?thesis
      proof
        assume l: "l = c # l'"
        have "l' \<in> set (readlines cs)" using Cons by simp
        then have "LF \<notin> set (rstrip [LF] l') \<and> set l' \<subseteq> set cs" by (rule Cons.IH)
        then show ?thesis using l False by (auto simp: rstrip_Cons)
      next
        assume "l \<in> set ls"
        then have "l \<in> set (readlines cs)" using Cons by simp
        then have "LF \<notin> set (rstrip [LF] l) \<and> set l \<subseteq> set cs" by (rule Cons.IH)
        then show ?thesis by auto
      qed
    qed
  qed
qed

lemma split_fields:
  "f \<in> set (split sep s) \<Longrightarrow> sep \<notin> set f \<and> set f \<subseteq> set s"
proof (induction s arbitrary: f)
  case Nil
  then show ?case by simp
next
  case (Cons c cs)
  show ?case
  proof (cases "c = sep")
    case True
    with Cons.prems have "f = [] \<or> f \<in> set (split sep cs)" by simp
    then show ?thesis using Cons.IH[of f] by auto
  next
    case False
    show ?thesis
    proof (cases "split sep cs")
      case Nil
      with False Cons.prems have "f = [c]" by simp
      then show ?thesis using False by simp
    next
      case (Cons p ps)
      with False Cons.prems have "f = c # p \<or> f \<in> set ps" by simp
      then show ?thesis
      proof
        assume f: "f = c # p"
        have "p \<in> set (split sep cs)" using Cons by simp
        then have "sep \<notin> set p \<and> set p \<subseteq> set cs" by (rule Cons.IH)
        then show ?thesis using f False by auto
      next
        assume "f \<in> set ps"
        then have "f \<in> set (split sep cs)" using Cons by simp
        then have "sep \<notin> set f \<and> set f \<subseteq> set cs" by (rule Cons.IH)
        then show ?thesis by auto
      qed
    qed
  qed
qed

lemma unescape_keeps_prefix:
  "\<forall>c\<in>set p. c \<noteq> comma \<and> c \<noteq> CHR 0x5C \<Longrightarrow>
     take (length p) (replace escape_token [comma] s) = p \<Longrightarrow> take (length p) s = p"
proof (induction p arbitrary: s)
  case Nil
  then show ?case by simp
next
  case (Cons a p)
  show ?case
  proof (cases s)
    case Nil
    with Cons.prems show ?thesis by (simp add: escape_token_def)
  next
    case s: (Cons x xs)
    show ?thesis
    proof (cases "take (length escape_token) (x # xs) = escape_token")
      case True
      then have "x # xs = escape_token @ drop (length escape_token) (x # xs)"
        by (metis append_take_drop_id)
      then have "replace escape_token [comma] (x # xs)
                   = [comma] @ replace escape_token [comma] (drop (length escape_token) (x # xs))"
        by (metis unescape_token)
      with Cons.prems s show ?thesis by simp
    next
      case False
      then have "replace escape_token [comma] (x # xs) = x # replace escape_token [comma] xs"
        by (rule unescape_skip)
      with Cons.prems s Cons.IH[of xs] show ?thesis by simp
    qed
  qed
qed

lemma unescape_no_token: "\<not> occurs escape_token (replace escape_token [comma] s)"
proof (induction s rule: length_induct)
  case (1 s)
  let ?U = "replace escape_token [comma]"
  show ?case
  proof (cases s)
    case Nil
    then show ?thesis by (simp add: escape_token_def)
  next
    case (Cons c cs)
    show ?thesis
    proof (cases "take (length escape_token) (c # cs) = escape_token")
      case True
      define r where "r = drop (length escape_token) (c # cs)"
      have "c # cs = escape_token @ r" using True unfolding r_def by (metis append_take_drop_id)
      then have u: "?U s = comma # ?U r" using Cons by (simp add: unescape_token)
      have "length r < length s" using Cons unfolding r_def by (simp add: escape_token_def)
      then have "\<not> occurs escape_token (?U r)" using 1 by blast
      moreover have "take (length escape_token) (comma # ?U r) \<noteq> escape_token"
        unfolding token_head by simp
      ultimately show ?thesis unfolding u by simp
    next
      case False
      then have "?U (c # cs) = c # ?U cs" by (rule unescape_skip)
      then have u: "?U s = c # ?U cs" using Cons by simp
      have "\<not> occurs escape_token (?U cs)" using 1 Cons by simp
      moreover have "take (length escape_token) (c # ?U cs) \<noteq> escape_token"
      proof
        assume "take (length escape_token) (c # ?U cs) = escape_token"
        then have c: "c = CHR 0x5C" and r: "take (length ''u002C'') (?U cs) = ''u002C''"
          unfolding token_head by blast+
        have "\<forall>x\<in>set ''u002C''. x \<noteq> comma \<and> x \<noteq> CHR 0x5C" by simp
        then have "take (length ''u002C'') cs = ''u002C''" using r by (rule unescape_keeps_prefix)
        with c False show False unfolding token_head by blast
      qed
      ultimately show ?thesis unfolding u by simp
    qed
  qed
qed

lemma unescape_set: "set (replace escape_token [comma] s) \<subseteq> insert comma (set s)"
proof (induction s rule: length_induct)
  case (1 s)
  let ?U = "replace escape_token [comma]"
  show ?case
  proof (cases s)
    case Nil
    then show ?thesis by (simp add: escape_token_def)
  next
    case (Cons c cs)
    show ?thesis
    proof (cases "take (length escape_token) (c # cs) = escape_token")
      case True
      define r where "r = drop (length escape_token) (c # cs)"
      have "c # cs = escape_token @ r" using True unfolding r_def by (metis append_take_drop_id)
      then have u: "?U s = comma # ?U r" using Cons by (simp add: unescape_token)
      have "length r < length s" using Cons unfolding r_def by (simp add: escape_token_def)
      then have "set (?U r) \<subseteq> insert comma (set r)" using 1 by blast
      moreover have "set r \<subseteq> set s" using Cons unfolding r_def by (meson set_drop_subset)
      ultimately show ?thesis unfolding u by auto
    next
      case False
      then have "?U (c # cs) = c # ?U cs" by (rule unescape_skip)
      then have u: "?U s = c # ?U cs" using Cons by simp
      have "set (?U cs) \<subseteq> insert comma (set cs)" using 1 Cons by simp
      then show ?thesis unfolding u using Cons by auto
    qed
  qed
qed

lemma map_filter_single:
  "List.map_filter f xs = [t] \<Longrightarrow> \<exists>x\<in>set xs. f x = Some t"
proof -
  assume "List.map_filter f xs = [t]"
  then have "t \<in> set (List.map_filter f xs)" by simp
  then show ?thesis by (auto simp: List.map_filter_def)
qed

lemma decoded_file_safe:
  assumes d: "decode_line l = Some t" and lf: "LF \<notin> set (rstrip [LF] l)" and cr: "CR \<notin> set l"
  shows "file_safe t"
proof -
  define parts where "parts = split comma (rstrip [LF] l)"
  have len: "length parts = 4 \<or> length parts = 5"
    using d unfolding decode_line_def Let_def parts_def [symmetric]
    by (auto split: if_splits)
  obtain i where t: "t = \<lparr> task_id = i,
       description = replace escape_token [comma] (parts ! 1),
       due_date = (if parts ! 2 = [] \<or> parts ! 2 = ''None'' then None else Some (parts ! 2)),
       completed = (lower (strip (parts ! 3)) = ''true''),
       priority = (if length parts = 5 then from_str (Some (parts ! 4)) else MEDIUM) \<rparr>"
    using d len unfolding decode_line_def Let_def parts_def [symmetric]
    by (auto split: option.splits if_splits)
  have field: "comma \<notin> set (parts ! k) \<and> LF \<notin> set (parts ! k) \<and> CR \<notin> set (parts ! k)"
    if "k < length parts" for k
  proof -
    have "parts ! k \<in> set (split comma (rstrip [LF] l))"
      using that unfolding parts_def by (rule nth_mem)
    then have "comma \<notin> set (parts ! k) \<and> set (parts ! k) \<subseteq> set (rstrip [LF] l)"
      by (rule split_fields)
    moreover have "set (rstrip [LF] l) \<subseteq> set l" by (rule rstrip_subset)
    ultimately show ?thesis using lf cr by blast
  qed
  have f1: "LF \<notin> set (parts ! 1) \<and> CR \<notin> set (parts ! 1)" using field[of 1] len by auto
  have f2: "comma \<notin> set (parts ! 2) \<and> LF \<notin> set (parts ! 2) \<and> CR \<notin> set (parts ! 2)"
    using field[of 2] len by auto
  have desc: "description t = replace escape_token [comma] (parts ! 1)" by (simp add: t)
  have due: "due_date t = (if parts ! 2 = [] \<or> parts ! 2 = ''None'' then None else Some (parts ! 2))"
    by (simp add: t)
  have "\<not> occurs escape_token (description t)" unfolding desc by (rule unescape_no_token)
  moreover have "one_line (description t)"
    unfolding desc one_line_def using unescape_set[of "parts ! 1"] f1 by auto
  moreover have "due_ok (due_date t)"
    unfolding due using f2 by (simp add: due_ok_def)
  moreover have "case due_date t of None \<Rightarrow> True | Some s \<Rightarrow> one_line s"
    unfolding due using f2 by (simp add: one_line_def)
  ultimately show ?thesis by (simp add: file_safe_def codec_safe_def)
qed

lemma one_line_delivered:
  assumes "file_safe t"
  shows "readlines (translate_newlines (encode_line t)) = [encode_line t]"
proof -
  have a: "\<forall>x\<in>set [t]. file_safe x" using assms by simp
  have "translate_newlines (concat (map encode_line [t])) = concat (map encode_line [t])"
    using saved_no_CR [OF a] by (rule translate_no_CR)
  moreover have "readlines (concat (map encode_line [t])) = map encode_line [t]"
    using a by (rule readlines_saved)
  ultimately show ?thesis by simp
qed

lemma delivered_only_if:
  assumes "List.map_filter decode_line (readlines (translate_newlines (encode_line t))) = [t]"
  shows "file_safe t"
proof -
  from map_filter_single [OF assms]
  obtain l where l: "l \<in> set (readlines (translate_newlines (encode_line t)))"
    and d: "decode_line l = Some t" by blast
  from readlines_no_inner_LF [OF l]
  have "LF \<notin> set (rstrip [LF] l)" and "set l \<subseteq> set (translate_newlines (encode_line t))"
    by simp_all
  moreover have "CR \<notin> set (translate_newlines (encode_line t))" by (rule translate_drops_CR)
  ultimately have "LF \<notin> set (rstrip [LF] l)" and "CR \<notin> set l" by auto
  with d show ?thesis by (rule decoded_file_safe)
qed

section \<open>The claims\<close>

text \<open>
  C7. Initialising the manager on a storage whose file does not exist gives an empty
  list of tasks and the next id 1; nothing is raised (the result is a manager), and the
  storage is left as it was.
\<close>

theorem fresh_start:
  "tasks (init_manager \<lparr> content = None, save_calls = n \<rparr>) = []
   \<and> next_id (init_manager \<lparr> content = None, save_calls = n \<rparr>) = 1
   \<and> storage (init_manager \<lparr> content = None, save_calls = n \<rparr>)
       = \<lparr> content = None, save_calls = n \<rparr>"
  by (simp add: init_manager_def load_tasks_def max_default_def)

text \<open>
  C8. \<open>Priority.from_str\<close> is the documented mapping: after trimming and without regard
  to case, \<open>l\<close>/\<open>low\<close> give low, \<open>m\<close>/\<open>med\<close>/\<open>medium\<close> give medium, \<open>h\<close>/\<open>hi\<close>/\<open>high\<close>
  give high, every other text and an absent value give medium. Adding a task with the
  priority text \<open>HI\<close> gives priority high, with \<open>bogus\<close> medium, with none medium.
\<close>

theorem from_str_mapping:
  "from_str v = priority_mapping_spec v
   \<and> priority (fst (add_task d due (AsString ''HI'') m)) = HIGH
   \<and> priority (fst (add_task d due (AsString ''bogus'') m)) = MEDIUM
   \<and> priority (fst (add_task d due NoPriority m)) = MEDIUM"
proof -
  have a: "from_str v = priority_mapping_spec v"
    by (cases v) (auto simp: from_str_def priority_mapping_spec_def Let_def strip_def lower_def)
  have b: "from_str (Some ''HI'') = HIGH" by code_simp
  have c: "from_str (Some ''bogus'') = MEDIUM" by code_simp
  show ?thesis using a b c by (simp add: add_task_def Let_def from_str_def)
qed

text \<open>
  C9. The escaping of commas is not injective. The task whose description is one comma
  and the task whose description is the six characters of the escape token are
  different, are written as the same line, and both lines decode to the task with the
  comma.
\<close>

theorem escaping_not_injective:
  "comma_task \<noteq> token_task
   \<and> encode_line comma_task = encode_line token_task
   \<and> decode_line (encode_line comma_task) = decode_line (encode_line token_task)
   \<and> decode_line (encode_line token_task) = Some comma_task"
  by code_simp

text \<open>
  C10. \<open>remove_task\<close> keeps exactly the tasks whose id differs from the given one, so
  after one call no task of the list has that id, however many had it before.
\<close>

theorem remove_all_matches:
  "tasks (snd (remove_task i m)) = filter (\<lambda>t. task_id t \<noteq> i) (tasks m)
   \<and> (\<forall>t \<in> set (tasks (snd (remove_task i m))). task_id t \<noteq> i)"
  by (simp add: remove_task_def Let_def)

theorem remove_all_matches_witness:
  "map task_id (tasks dup_manager) = [1, 2, 1]
   \<and> fst (remove_task 1 dup_manager)
   \<and> map task_id (tasks (snd (remove_task 1 dup_manager))) = [2]"
proof -
  have l: "tasks dup_manager =
     [\<lparr> task_id = 1, description = ''first'', due_date = None, completed = False, priority = LOW \<rparr>,
      \<lparr> task_id = 2, description = ''second'', due_date = None, completed = False, priority = LOW \<rparr>,
      \<lparr> task_id = 1, description = ''third'', due_date = None, completed = True, priority = HIGH \<rparr>]"
    by code_simp
  show ?thesis
    using remove_all_matches [of 1 dup_manager]
    by (simp add: l remove_task_def Let_def)
qed

text \<open>
  C1, amended. The claim as written fails: a description that holds a comma and also
  the six characters of the escape token comes back with one more comma. What holds:
  for every task whose description has no occurrence of the escape token, no line feed
  and no carriage return, and whose due date is absent, or a text that is not empty, is
  not the word \<open>None\<close> and has no comma, line feed or carriage return, the encoded line
  is one line as the file delivers it, and decoding it gives the task back exactly,
  literal commas of the description included. For no other task do the lines that the
  file delivers for its encoded text decode to just that task.
\<close>

theorem codec_round_trip:
  "(List.map_filter decode_line (readlines (translate_newlines (encode_line t))) = [t])
     = file_safe t
   \<and> (file_safe t \<longrightarrow>
        readlines (translate_newlines (encode_line t)) = [encode_line t]
        \<and> decode_line (encode_line t) = Some t)"
proof -
  have s: "readlines (translate_newlines (encode_line t)) = [encode_line t]
           \<and> decode_line (encode_line t) = Some t" if "file_safe t"
    using one_line_delivered [OF that] decode_encode [of t] that by (simp add: file_safe_def)
  then have "List.map_filter decode_line (readlines (translate_newlines (encode_line t))) = [t]"
    if "file_safe t" using that by simp
  then show ?thesis using s delivered_only_if [of t] by blast
qed

theorem codec_round_trip_witness:
  "comma \<in> set (description milk_task) \<and> file_safe milk_task
   \<and> readlines (translate_newlines (encode_line milk_task)) = [encode_line milk_task]
   \<and> decode_line (encode_line milk_task) = Some milk_task"
proof -
  have s: "file_safe milk_task" by code_simp
  have c: "comma \<in> set (description milk_task)" by (simp add: milk_task_def)
  show ?thesis using s c codec_round_trip [of milk_task] by simp
qed

theorem codec_round_trip_counterexample:
  "comma \<in> set (description mixed_task)
   \<and> readlines (translate_newlines (encode_line mixed_task)) = [encode_line mixed_task]
   \<and> decode_line (encode_line mixed_task) \<noteq> Some mixed_task
   \<and> load_tasks (save_tasks [mixed_task] blank_storage) \<noteq> [mixed_task]"
  by code_simp

text \<open>
  C3, amended. The claim as written fails: a task whose description holds a line feed
  is written on two lines and is not loaded back. What holds: for every list of tasks
  that each meet the condition of C1 and have no line feed and no carriage return in the
  description and in the due date, \<open>save_tasks\<close> writes the lines of the tasks in the
  order given, one line for each task, and \<open>load_tasks\<close> then gives the same list.
\<close>

theorem save_load_round_trip:
  "\<forall>t\<in>set ts. file_safe t \<Longrightarrow>
     content (save_tasks ts st) = Some (concat (map encode_line ts))
     \<and> readlines (translate_newlines (concat (map encode_line ts))) = map encode_line ts
     \<and> load_tasks (save_tasks ts st) = ts"
proof -
  assume a: "\<forall>t\<in>set ts. file_safe t"
  have "translate_newlines (concat (map encode_line ts)) = concat (map encode_line ts)"
    using saved_no_CR [OF a] by (rule translate_no_CR)
  then have "readlines (translate_newlines (concat (map encode_line ts))) = map encode_line ts"
    using readlines_saved [OF a] by simp
  moreover have "content (save_tasks ts st) = Some (concat (map encode_line ts))"
    by (simp add: save_tasks_def)
  moreover have "load_tasks (save_tasks ts st) = ts"
    using a by (rule load_save)
  ultimately show ?thesis by simp
qed

theorem save_load_round_trip_witness:
  "file_safe milk_task \<and> file_safe comma_task
   \<and> load_tasks (save_tasks [milk_task, comma_task] blank_storage) = [milk_task, comma_task]"
proof -
  have a: "file_safe milk_task" by code_simp
  have b: "file_safe comma_task" by code_simp
  have "\<forall>t\<in>set [milk_task, comma_task]. file_safe t" using a b by simp
  from save_load_round_trip [OF this, of blank_storage] a b show ?thesis by simp
qed

theorem save_load_round_trip_counterexample:
  "load_tasks (save_tasks [two_line_task] blank_storage) \<noteq> [two_line_task]"
  by code_simp

text \<open>
  C2. Every operation that changes the list saves it before it returns: after
  \<open>add_task\<close>, after \<open>mark_task_completed\<close> on an id of the list and after \<open>remove_task\<close>
  on an id of the list, the text of the file is what \<open>save_tasks\<close> writes for the list
  the manager now holds, and \<open>save_tasks\<close> has run exactly once. When every task of that
  list can be carried by the format, loading the file gives the list back.
\<close>

theorem save_after_every_write:
  "(let m' = snd (add_task d due p m)
    in file_matches_list m' \<and> save_calls (storage m') = Suc (save_calls (storage m))
       \<and> ((\<forall>t\<in>set (tasks m'). file_safe t) \<longrightarrow> load_tasks (storage m') = tasks m'))
   \<and> (i \<in> set (map task_id (tasks m)) \<longrightarrow>
        (let m' = snd (mark_task_completed i m)
         in file_matches_list m' \<and> save_calls (storage m') = Suc (save_calls (storage m))
            \<and> ((\<forall>t\<in>set (tasks m'). file_safe t) \<longrightarrow> load_tasks (storage m') = tasks m'))
        \<and> (let m' = snd (remove_task i m)
           in file_matches_list m' \<and> save_calls (storage m') = Suc (save_calls (storage m))
              \<and> ((\<forall>t\<in>set (tasks m'). file_safe t) \<longrightarrow> load_tasks (storage m') = tasks m')))"
proof -
  have a: "storage (snd (add_task d due p m))
             = save_tasks (tasks (snd (add_task d due p m))) (storage m)"
    by (simp add: add_task_def Let_def)
  have b: "storage (snd (mark_task_completed i m))
             = save_tasks (tasks (snd (mark_task_completed i m))) (storage m)"
    and c: "storage (snd (remove_task i m))
             = save_tasks (tasks (snd (remove_task i m))) (storage m)"
    if "i \<in> set (map task_id (tasks m))"
    using that by (simp_all add: mark_present remove_present)
  show ?thesis
    unfolding Let_def
    using saved_matches [OF a] saved_matches [OF b] saved_matches [OF c] by blast
qed

theorem save_after_every_write_witness:
  "file_matches_list (snd (add_task ''x,y'' None (AsString ''low'') dup_manager))
   \<and> save_calls (storage (snd (add_task ''x,y'' None (AsString ''low'') dup_manager))) = 1
   \<and> 2 \<in> set (map task_id (tasks dup_manager))
   \<and> file_matches_list (snd (mark_task_completed 2 dup_manager))
   \<and> file_matches_list (snd (remove_task 2 dup_manager))
   \<and> save_calls (storage (snd (remove_task 2 dup_manager))) = 1"
  using save_after_every_write [of "''x,y''" None "AsString ''low''" dup_manager 2]
  by (simp add: dup_manager_eq Let_def)

text \<open>
  C5. For an id that no task of the list has, \<open>mark_task_completed\<close> and \<open>remove_task\<close>
  return false and leave the manager as it was: the same list, the same file, no call of
  \<open>save_tasks\<close>. For an id of the list, \<open>mark_task_completed\<close> returns true, sets
  \<open>completed\<close> on the first task with that id and on no other, and saves the new list;
  \<open>remove_task\<close> returns true, drops the tasks with that id, and saves the new list.
\<close>

theorem absent_or_present_id:
  "(i \<notin> set (map task_id (tasks m)) \<longrightarrow>
      mark_task_completed i m = (False, m) \<and> remove_task i m = (False, m))
   \<and> (i \<in> set (map task_id (tasks m)) \<longrightarrow>
      fst (mark_task_completed i m)
      \<and> (\<exists>k<length (tasks m). (\<forall>j<k. task_id (tasks m ! j) \<noteq> i) \<and> task_id (tasks m ! k) = i
            \<and> tasks (snd (mark_task_completed i m))
                = (tasks m)[k := (tasks m ! k)\<lparr>completed := True\<rparr>])
      \<and> storage (snd (mark_task_completed i m))
          = save_tasks (tasks (snd (mark_task_completed i m))) (storage m)
      \<and> fst (remove_task i m)
      \<and> tasks (snd (remove_task i m)) = filter (\<lambda>t. task_id t \<noteq> i) (tasks m)
      \<and> storage (snd (remove_task i m))
          = save_tasks (tasks (snd (remove_task i m))) (storage m))"
proof (cases "i \<in> set (map task_id (tasks m))")
  case True
  from mark_found_update [OF True] show ?thesis
    using True by (simp add: mark_present remove_present)
next
  case False
  then show ?thesis by (simp add: mark_absent remove_absent)
qed

theorem absent_or_present_id_witness:
  "5 \<notin> set (map task_id (tasks dup_manager))
   \<and> mark_task_completed 5 dup_manager = (False, dup_manager)
   \<and> remove_task 5 dup_manager = (False, dup_manager)
   \<and> 2 \<in> set (map task_id (tasks dup_manager))
   \<and> fst (mark_task_completed 2 dup_manager)
   \<and> map completed (tasks (snd (mark_task_completed 2 dup_manager))) = [False, True, True]
   \<and> save_calls (storage (snd (mark_task_completed 2 dup_manager))) = 1
   \<and> fst (remove_task 2 dup_manager)
   \<and> map task_id (tasks (snd (remove_task 2 dup_manager))) = [1, 1]
   \<and> save_calls (storage (snd (remove_task 2 dup_manager))) = 1"
  using absent_or_present_id [of 5 dup_manager] absent_or_present_id [of 2 dup_manager]
  by (simp add: dup_manager_eq save_tasks_def mark_present mark_completed_def)

text \<open>
  C4. After initialisation the next id is the greatest id among the loaded tasks plus
  one, or 1 when no task was loaded. \<open>add_task\<close> gives the new task the current next id
  and increases the next id by one; after loading the ids 3, 7 and 2 the next addition
  gets the id 8. When the loaded ids are pairwise different, the ids of the list stay
  pairwise different through every sequence of calls; the ids given out in a session
  are strictly increasing and greater than every loaded id.
\<close>

theorem id_assignment:
  "next_id (init_manager st)
     = (if load_tasks st = [] then 1 else Max (set (map task_id (load_tasks st))) + 1)
   \<and> task_id (fst (add_task d due p m)) = next_id m
   \<and> next_id (snd (add_task d due p m)) = next_id m + 1
   \<and> task_id (fst (add_task d due p (init_manager stored_372))) = 8
   \<and> (distinct (map task_id (load_tasks st))
        \<longrightarrow> distinct (map task_id (tasks (run cs (init_manager st)))))
   \<and> sorted_wrt (<) (assigned cs (init_manager st))
   \<and> (\<forall>a\<in>set (assigned cs (init_manager st)). \<forall>t\<in>set (load_tasks st). task_id t < a)"
proof -
  have n: "next_id (init_manager st)
     = (if load_tasks st = [] then 1 else Max (set (map task_id (load_tasks st))) + 1)"
    by (simp add: init_manager_def Let_def max_default_Max)
  have l: "tasks (init_manager st) = load_tasks st"
    by (simp add: init_manager_def Let_def)
  have e: "next_id (init_manager stored_372) = 8" by code_simp
  have d: "distinct (map task_id (tasks (run cs (init_manager st))))"
    if "distinct (map task_id (load_tasks st))"
    using that init_below [of st] by (intro run_distinct) (simp_all add: l)
  have f: "\<forall>a\<in>set (assigned cs (init_manager st)). \<forall>t\<in>set (load_tasks st). task_id t < a"
    using assigned_fresh [OF init_below, of _ cs st] by (simp add: l)
  show ?thesis
    using n e d f assigned_increasing [of cs "init_manager st"]
    by (simp add: add_task_def Let_def)
qed

theorem id_assignment_witness:
  "distinct (map task_id (load_tasks stored_372))
   \<and> map task_id (load_tasks stored_372) = [3, 7, 2]
   \<and> next_id (init_manager stored_372) = 8
   \<and> assigned session_calls (init_manager stored_372) = [8, 9]
   \<and> map task_id (tasks (run session_calls (init_manager stored_372))) = [3, 7, 2, 9]
   \<and> distinct (map task_id (tasks (run session_calls (init_manager stored_372))))"
proof -
  have a: "map task_id (load_tasks stored_372) = [3, 7, 2]" by code_simp
  have b: "assigned session_calls (init_manager stored_372) = [8, 9]" by code_simp
  have c: "map task_id (tasks (run session_calls (init_manager stored_372))) = [3, 7, 2, 9]"
    by code_simp
  have e: "next_id (init_manager stored_372) = 8" by code_simp
  show ?thesis
    using id_assignment [of stored_372 "''x''" None NoPriority "init_manager stored_372" session_calls]
    by (simp add: a b c e)
qed

text \<open>
  C6. A stored line gives a task exactly when splitting it at the commas (after its
  line end is removed) gives 4 or 5 fields and the first field is accepted by \<open>int\<close>;
  every other line gives nothing. Loading a file of lines gives the tasks of the
  accepted lines, in order, and skips the others. In particular a file of one
  well-formed line and one line of two fields, in either order, loads exactly the task
  of the well-formed line.
\<close>

theorem malformed_lines_skipped:
  "(decode_line line \<noteq> None)
     = ((length (split comma (rstrip [LF] line)) = 4 \<or> length (split comma (rstrip [LF] line)) = 5)
        \<and> py_int (split comma (rstrip [LF] line) ! 0) \<noteq> None)
   \<and> ((\<forall>l\<in>set ls. one_line l) \<longrightarrow>
        load_tasks \<lparr> content = Some (concat (map (\<lambda>l. l @ [LF]) ls)), save_calls = n \<rparr>
          = List.map_filter decode_line (map (\<lambda>l. l @ [LF]) ls))
   \<and> (one_line good \<and> one_line bad \<and> decode_line (good @ [LF]) = Some t
        \<and> length (split comma bad) = 2 \<longrightarrow>
        load_tasks \<lparr> content = Some (good @ [LF] @ bad @ [LF]), save_calls = n \<rparr> = [t]
        \<and> load_tasks \<lparr> content = Some (bad @ [LF] @ good @ [LF]), save_calls = n \<rparr> = [t])"
proof -
  have two: "load_tasks \<lparr> content = Some (good @ [LF] @ bad @ [LF]), save_calls = n \<rparr> = [t]
        \<and> load_tasks \<lparr> content = Some (bad @ [LF] @ good @ [LF]), save_calls = n \<rparr> = [t]"
    if g: "one_line good" and b: "one_line bad" and d: "decode_line (good @ [LF]) = Some t"
      and k: "length (split comma bad) = 2"
  proof -
    have "rstrip [LF] (bad @ [LF]) = bad" using b by (intro rstrip_LF) (simp add: one_line_def)
    then have s: "decode_line (bad @ [LF]) = None" using k by (simp add: decode_line_def)
    have "load_tasks \<lparr> content = Some (concat (map (\<lambda>l. l @ [LF]) [good, bad])), save_calls = n \<rparr>
            = List.map_filter decode_line (map (\<lambda>l. l @ [LF]) [good, bad])"
      using g b by (intro load_lines) simp
    moreover
    have "load_tasks \<lparr> content = Some (concat (map (\<lambda>l. l @ [LF]) [bad, good])), save_calls = n \<rparr>
            = List.map_filter decode_line (map (\<lambda>l. l @ [LF]) [bad, good])"
      using g b by (intro load_lines) simp
    ultimately show ?thesis using s d by simp
  qed
  show ?thesis
    using decode_line_accepts [of line] load_lines [of ls n] two by blast
qed

theorem malformed_lines_skipped_witness:
  "list_all one_line stored_lines
   \<and> map task_id (load_tasks \<lparr> content = Some (concat (map (\<lambda>l. l @ [LF]) stored_lines)),
                                save_calls = 0 \<rparr>) = [1, 2]
   \<and> length (split comma ''oops,line'') = 2
   \<and> length (load_tasks \<lparr> content = Some (''1,Buy milk,None,False,low'' @ [LF]
                                           @ ''oops,line'' @ [LF]), save_calls = 0 \<rparr>) = 1
   \<and> decode_line ''x,a,None,False'' = None
   \<and> decode_line ''3,c,d,e,f,g'' = None"
proof -
  have a: "list_all one_line stored_lines" by code_simp
  have b: "map task_id (List.map_filter decode_line (map (\<lambda>l. l @ [LF]) stored_lines)) = [1, 2]"
    by code_simp
  have c: "decode_line (''1,Buy milk,None,False,low'' @ [LF])
             = Some \<lparr> task_id = 1, description = ''Buy milk'', due_date = None,
                      completed = False, priority = LOW \<rparr>"
    by code_simp
  have d: "one_line ''1,Buy milk,None,False,low'' \<and> one_line ''oops,line''
           \<and> length (split comma ''oops,line'') = 2" by code_simp
  have e: "decode_line ''x,a,None,False'' = None \<and> decode_line ''3,c,d,e,f,g'' = None"
    by code_simp
  show ?thesis
    using malformed_lines_skipped [of "''x,a,None,False''" stored_lines 0
        "''1,Buy milk,None,False,low''" "''oops,line''"
        "\<lparr> task_id = 1, description = ''Buy milk'', due_date = None,
                      completed = False, priority = LOW \<rparr>"]
      a b c d e
    by (simp add: list_all_iff)
qed

end
